theory Spec2Isabelle
  imports Main "HOL-Library.Word"
begin

section \<open>The circular byte buffer of mm/circ\_buf/circ\_buf.c\<close>

text \<open>
  The buffer is embedded the way the C file is written.  \<^verbatim>\<open>size_t\<close> is a machine
  word of some width \<open>'a\<close>, so that \<open>+\<close> and \<open>-\<close> on the cursors wrap around exactly as
  they do in C.  A pointer is either \<open>None\<close> (the null pointer) or \<open>Some\<close> of the
  object it points to, and every function takes the state of the objects it is handed
  and returns their state after the call.  A \<^verbatim>\<open>ssize_t\<close> or \<^verbatim>\<open>int\<close> result is a sum:
  \<open>Inl e\<close> for the negated errno \<open>-e\<close>, \<open>Inr n\<close> for a count.  Undefined behaviour
  (a remainder by zero, a copy that leaves its object) is a \<open>Trap\<close>.
\<close>

type_synonym byte = "8 word"

text \<open>A pointer to a run of bytes: null, or the bytes of the object from the pointer on.\<close>

type_synonym pointer = "byte list option"

datatype errno = EINVAL | ENOMEM

datatype trap = DivideByZero | BadAccess

datatype ('r, 's) outcome = Trap trap | Return 'r 's

text \<open>
  Modelled from the spec: the declaration of \<^verbatim>\<open>struct circ_buf_s\<close> lives in
  include/nuttx/mm/circ\_buf.h, which is not among the sources.  The fields are the five
  the functions access: the storage pointer \<open>base\<close>, the capacity \<^verbatim>\<open>size\<close> (called
  \<open>size_bytes\<close> here), the write cursor \<open>head\<close>, the read cursor \<open>tail\<close>, and the
  flag \<open>external\<close> that marks borrowed storage.
\<close>

record 'w circ_buf_rec =
  base :: pointer
  size_bytes :: 'w
  head :: 'w
  tail :: 'w
  external :: bool

text \<open>The three \<^verbatim>\<open>size_t\<close> fields are words of the width \<open>'a\<close> of \<^verbatim>\<open>size_t\<close>.\<close>

type_synonym 'a circ_buf_s = "'a word circ_buf_rec"

text \<open>
  Modelled from the spec: the allocator (\<^verbatim>\<open>kmm_malloc\<close>, \<^verbatim>\<open>kmm_free\<close>) is an injected
  capability whose code is not among the sources; the buffer depends only on whether an
  allocation succeeds.  An allocator maps the requested size to \<open>None\<close> (failure) or
  to the bytes that happen to be in the fresh block.  Freeing has no effect on the
  state the model keeps.
\<close>

type_synonym 'a allocator = "'a word \<Rightarrow> (nat \<Rightarrow> byte) option"

definition kmm_malloc :: "('a::len) allocator \<Rightarrow> 'a word \<Rightarrow> pointer" where
  "kmm_malloc mm bytes = map_option (\<lambda>f. map f [0..<unat bytes]) (mm bytes)"

text \<open>
  Modelled from the spec: \<^verbatim>\<open>memcpy\<close> of the C library is not among the sources; the
  buffer uses it for its contiguous copies.  \<^verbatim>\<open>memcpy(dst + d, src + s, n)\<close> on two
  distinct objects: \<open>n\<close> bytes of \<open>src\<close> from offset \<open>s\<close> replace the bytes of
  \<open>dst\<close> from offset \<open>d\<close>.  Copying no byte touches no memory; any other copy
  through a null pointer or past the end of either object is a bad access.
\<close>

definition memcpy :: "pointer \<Rightarrow> nat \<Rightarrow> pointer \<Rightarrow> nat \<Rightarrow> nat \<Rightarrow> trap + pointer" where
  "memcpy dst d src s n =
     (if n = 0 then Inr dst
      else case (dst, src) of
        (Some db, Some sb) \<Rightarrow>
          if d + n \<le> length db \<and> s + n \<le> length sb
          then Inr (Some (take d db @ take n (drop s sb) @ drop (d + n) db))
          else Inl BadAccess
      | _ \<Rightarrow> Inl BadAccess)"

text \<open>The value of a negated errno, for the places where C converts a result back to \<^verbatim>\<open>size_t\<close>.\<close>

fun errno_val :: "errno \<Rightarrow> nat" where
  "errno_val EINVAL = 22"
| "errno_val ENOMEM = 12"

definition ssize_to_size :: "errno + ('a::len) word \<Rightarrow> 'a word" where
  "ssize_to_size r = (case r of Inl e \<Rightarrow> - of_nat (errno_val e) | Inr n \<Rightarrow> n)"

subsection \<open>Lifecycle\<close>

definition circ_buf_init ::
  "('a::len) allocator \<Rightarrow> 'a circ_buf_s option \<Rightarrow> pointer \<Rightarrow> 'a word
     \<Rightarrow> (errno + unit) \<times> 'a circ_buf_s option" where
  "circ_buf_init mm circ base0 bytes =
     (case circ of
        None \<Rightarrow> (Inl EINVAL, None)
      | Some c \<Rightarrow>
          if base0 \<noteq> None \<and> bytes = 0 then (Inl EINVAL, Some c)
          else
            let c1 = c\<lparr>external := (base0 \<noteq> None)\<rparr> in
            if base0 = None \<and> bytes \<noteq> 0 then
              (case kmm_malloc mm bytes of
                 None \<Rightarrow> (Inl ENOMEM, Some c1)
               | Some b \<Rightarrow>
                   (Inr (), Some (c1\<lparr>base := Some b, size_bytes := bytes, head := 0, tail := 0\<rparr>)))
            else (Inr (), Some (c1\<lparr>base := base0, size_bytes := bytes, head := 0, tail := 0\<rparr>)))"

definition circ_buf_reset :: "('a::len) circ_buf_s option \<Rightarrow> 'a circ_buf_s option" where
  "circ_buf_reset circ =
     (case circ of None \<Rightarrow> None | Some c \<Rightarrow> Some (c\<lparr>head := 0, tail := 0\<rparr>))"

subsection \<open>Queries\<close>

definition circ_buf_size :: "('a::len) circ_buf_s option \<Rightarrow> 'a word" where
  "circ_buf_size circ = (case circ of Some c \<Rightarrow> size_bytes c | None \<Rightarrow> 0)"

definition circ_buf_used :: "('a::len) circ_buf_s option \<Rightarrow> 'a word" where
  "circ_buf_used circ = (case circ of Some c \<Rightarrow> head c - tail c | None \<Rightarrow> 0)"

definition circ_buf_space :: "('a::len) circ_buf_s option \<Rightarrow> 'a word" where
  "circ_buf_space circ = circ_buf_size circ - circ_buf_used circ"

definition circ_buf_is_empty :: "('a::len) circ_buf_s option \<Rightarrow> bool" where
  "circ_buf_is_empty circ = (\<not> (circ_buf_used circ \<noteq> 0))"

definition circ_buf_is_full :: "('a::len) circ_buf_s option \<Rightarrow> bool" where
  "circ_buf_is_full circ = (\<not> (circ_buf_space circ \<noteq> 0))"

subsection \<open>Data movement\<close>

definition circ_buf_peek ::
  "('a::len) circ_buf_s option \<Rightarrow> pointer \<Rightarrow> 'a word
     \<Rightarrow> (errno + 'a word, 'a circ_buf_s option \<times> pointer) outcome" where
  "circ_buf_peek circ dst bytes =
     (case circ of
        None \<Rightarrow> Return (Inl EINVAL) (circ, dst)
      | Some c \<Rightarrow>
          (let len = circ_buf_used circ in
           if size_bytes c = 0 then Trap DivideByZero
           else
             (let off = tail c mod size_bytes c;
                  bytes = (if bytes > len then len else bytes);
                  len = size_bytes c - off;
                  len = (if bytes < len then bytes else len)
              in (case memcpy dst 0 (base c) (unat off) (unat len) of
                    Inl t \<Rightarrow> Trap t
                  | Inr dst1 \<Rightarrow>
                      (case memcpy dst1 (unat len) (base c) 0 (unat (bytes - len)) of
                         Inl t \<Rightarrow> Trap t
                       | Inr dst2 \<Rightarrow> Return (Inr bytes) (circ, dst2))))))"

definition circ_buf_read ::
  "('a::len) circ_buf_s option \<Rightarrow> pointer \<Rightarrow> 'a word
     \<Rightarrow> (errno + 'a word, 'a circ_buf_s option \<times> pointer) outcome" where
  "circ_buf_read circ dst bytes =
     (if circ = None \<or> dst = None then Return (Inl EINVAL) (circ, dst)
      else
        (case circ_buf_peek circ dst bytes of
           Trap t \<Rightarrow> Trap t
         | Return r (circ1, dst1) \<Rightarrow>
             (let bytes = ssize_to_size r
              in Return r (map_option (\<lambda>c. c\<lparr>tail := tail c + bytes\<rparr>) circ1, dst1))))"

definition circ_buf_skip ::
  "('a::len) circ_buf_s option \<Rightarrow> 'a word \<Rightarrow> (errno + 'a word) \<times> 'a circ_buf_s option" where
  "circ_buf_skip circ bytes =
     (case circ of
        None \<Rightarrow> (Inl EINVAL, None)
      | Some c \<Rightarrow>
          let len = circ_buf_used circ;
              bytes = (if bytes > len then len else bytes)
          in (Inr bytes, Some (c\<lparr>tail := tail c + bytes\<rparr>)))"

definition circ_buf_write ::
  "('a::len) circ_buf_s option \<Rightarrow> pointer \<Rightarrow> 'a word
     \<Rightarrow> (errno + 'a word, 'a circ_buf_s option) outcome" where
  "circ_buf_write circ src bytes =
     (case circ of
        None \<Rightarrow> Return (Inl EINVAL) circ
      | Some c \<Rightarrow>
          if src = None then Return (Inl EINVAL) circ
          else
            (let space = circ_buf_space circ in
             if size_bytes c = 0 then Trap DivideByZero
             else
               (let off = head c mod size_bytes c;
                    bytes = (if bytes > space then space else bytes);
                    space = size_bytes c - off;
                    space = (if bytes < space then bytes else space)
                in (case memcpy (base c) (unat off) src 0 (unat space) of
                      Inl t \<Rightarrow> Trap t
                    | Inr b1 \<Rightarrow>
                        (case memcpy b1 0 src (unat space) (unat (bytes - space)) of
                           Inl t \<Rightarrow> Trap t
                         | Inr b2 \<Rightarrow>
                             Return (Inr bytes)
                               (Some (c\<lparr>base := b2, head := head c + bytes\<rparr>)))))))"

text \<open>
  In \<open>circ_buf_overwrite\<close> the pointer \<^verbatim>\<open>src\<close> is advanced when the source is longer
  than the storage; \<open>skipped\<close> is the number of bytes it has been advanced by.
\<close>

definition circ_buf_overwrite ::
  "('a::len) circ_buf_s option \<Rightarrow> pointer \<Rightarrow> 'a word
     \<Rightarrow> (errno + 'a word, 'a circ_buf_s option) outcome" where
  "circ_buf_overwrite circ src bytes =
     (case circ of
        None \<Rightarrow> Return (Inl EINVAL) circ
      | Some c \<Rightarrow>
          if src = None then Return (Inl EINVAL) circ
          else
            (let overwrite = 0;
                 skipped = (if bytes > size_bytes c then unat (bytes - size_bytes c) else 0);
                 bytes = (if bytes > size_bytes c then size_bytes c else bytes);
                 space = circ_buf_space circ;
                 overwrite = (if bytes > space then bytes - space else overwrite)
             in if size_bytes c = 0 then Trap DivideByZero
                else
                  (let off = head c mod size_bytes c;
                       space = size_bytes c - off;
                       space = (if bytes < space then bytes else space)
                   in (case memcpy (base c) (unat off) src skipped (unat space) of
                         Inl t \<Rightarrow> Trap t
                       | Inr b1 \<Rightarrow>
                           (case memcpy b1 0 src (skipped + unat space) (unat (bytes - space)) of
                              Inl t \<Rightarrow> Trap t
                            | Inr b2 \<Rightarrow>
                                Return (Inr overwrite)
                                  (Some (c\<lparr>base := b2, head := head c + bytes,
                                            tail := tail c + overwrite\<rparr>)))))))"

subsection \<open>Resize\<close>

definition circ_buf_resize ::
  "('a::len) allocator \<Rightarrow> 'a circ_buf_s option \<Rightarrow> 'a word
     \<Rightarrow> (errno + unit, 'a circ_buf_s option) outcome" where
  "circ_buf_resize mm circ bytes =
     (case circ of
        None \<Rightarrow> Return (Inl EINVAL) circ
      | Some c \<Rightarrow>
          if external c then Return (Inl EINVAL) circ
          else
            (case kmm_malloc mm bytes of
               None \<Rightarrow> Return (Inl ENOMEM) circ
             | Some tmp \<Rightarrow>
                 (let len = circ_buf_used circ;
                      circ1 = (if bytes < len then snd (circ_buf_skip circ (len - bytes)) else circ);
                      len = (if bytes < len then bytes else len)
                  in (case circ_buf_read circ1 (Some tmp) len of
                        Trap t \<Rightarrow> Trap t
                      | Return r (circ2, tmp2) \<Rightarrow>
                          Return (Inr ())
                            (map_option
                               (\<lambda>c2. c2\<lparr>base := tmp2, size_bytes := bytes, head := len, tail := 0\<rparr>)
                               circ2)))))"

section \<open>The logical content of a buffer\<close>

text \<open>
  The definitions of this section are not code of the C file: they say what the C file is
  verified against.  \<open>ring_read b sz off n\<close> is the run of \<open>n\<close> bytes found in the
  storage \<open>b\<close> of capacity \<open>sz\<close> from the physical offset \<open>off\<close> on, wrapping at
  \<open>sz\<close>.  \<open>ring_write b sz off xs n\<close> is the storage after the first \<open>n\<close> bytes of
  \<open>xs\<close> have been stored from offset \<open>off\<close> on as the two copies of the C code do.
\<close>

definition ring_read :: "byte list \<Rightarrow> nat \<Rightarrow> nat \<Rightarrow> nat \<Rightarrow> byte list" where
  "ring_read b sz off n = map (\<lambda>i. b ! ((off + i) mod sz)) [0..<n]"

definition ring_write :: "byte list \<Rightarrow> nat \<Rightarrow> nat \<Rightarrow> byte list \<Rightarrow> nat \<Rightarrow> byte list" where
  "ring_write b sz off xs n =
     (let len = min n (sz - off);
          b1 = take off b @ take len xs @ drop (off + len) b
      in take (n - len) (drop len xs) @ drop (n - len) b1)"

text \<open>
  The resident bytes of a buffer, oldest first: what a reader finds from the physical
  offset of the read cursor on, for as many bytes as the buffer is occupied.
\<close>

definition resident :: "('a::len) circ_buf_s \<Rightarrow> byte list" where
  "resident c =
     (case base c of
        None \<Rightarrow> []
      | Some b \<Rightarrow>
          ring_read b (unat (size_bytes c)) (unat (tail c mod size_bytes c)) (unat (head c - tail c)))"

text \<open>
  A ring buffer: the storage is there and holds at least \<open>size_bytes\<close> bytes (a buffer
  of capacity 0 may have no storage), and the occupancy \<open>head - tail\<close>, taken modulo the
  width of \<^verbatim>\<open>size_t\<close> as the code takes it, is at most the capacity.  Nothing is asked
  of the order of the two cursors.
\<close>

definition well_formed :: "('a::len) circ_buf_s \<Rightarrow> bool" where
  "well_formed c =
     ((case base c of
         None \<Rightarrow> size_bytes c = 0
       | Some b \<Rightarrow> unat (size_bytes c) \<le> length b)
      \<and> head c - tail c \<le> size_bytes c)"

text \<open>
  The cursors of a buffer are aligned when the write cursor has not wrapped around the
  width of \<^verbatim>\<open>size_t\<close> past the read cursor, or when the capacity divides \<open>2\<^sup>w\<close>, \<open>w\<close>
  the width of \<^verbatim>\<open>size_t\<close>.  Then the physical offset of the write cursor is the
  physical offset of the read cursor plus the occupancy, modulo the capacity.
\<close>

definition cursors_aligned :: "('a::len) circ_buf_s \<Rightarrow> bool" where
  "cursors_aligned c = (tail c \<le> head c \<or> unat (size_bytes c) dvd 2 ^ LENGTH('a))"

text \<open>
  The number of resident bytes \<open>circ_buf_overwrite\<close> gives up for a source of
  \<open>bytes\<close> bytes: what the source, cut to the capacity, needs beyond the free space.
\<close>

definition evicted :: "('a::len) circ_buf_s \<Rightarrow> 'a word \<Rightarrow> 'a word" where
  "evicted c bytes =
     (if min bytes (size_bytes c) > size_bytes c - (head c - tail c)
      then min bytes (size_bytes c) - (size_bytes c - (head c - tail c)) else 0)"

text \<open>
  The states of a buffer that a caller can reach: a successful \<open>circ_buf_init\<close>,
  followed by any calls of the data-movement functions and \<open>circ_buf_reset\<close> that
  return, and by calls of \<open>circ_buf_resize\<close> that succeed.
\<close>

inductive reachable :: "('a::len) circ_buf_s \<Rightarrow> bool" where
  r_init: "circ_buf_init mm (Some c0) base0 bytes = (Inr (), Some c) \<Longrightarrow> reachable c"
| r_peek: "reachable c \<Longrightarrow> circ_buf_peek (Some c) dst bytes = Return r (Some c', dst')
            \<Longrightarrow> reachable c'"
| r_read: "reachable c \<Longrightarrow> circ_buf_read (Some c) dst bytes = Return r (Some c', dst')
            \<Longrightarrow> reachable c'"
| r_skip: "reachable c \<Longrightarrow> circ_buf_skip (Some c) bytes = (r, Some c') \<Longrightarrow> reachable c'"
| r_write: "reachable c \<Longrightarrow> circ_buf_write (Some c) src bytes = Return r (Some c')
            \<Longrightarrow> reachable c'"
| r_overwrite: "reachable c \<Longrightarrow> circ_buf_overwrite (Some c) src bytes = Return r (Some c')
            \<Longrightarrow> reachable c'"
| r_reset: "reachable c \<Longrightarrow> circ_buf_reset (Some c) = Some c' \<Longrightarrow> reachable c'"
| r_resize: "reachable c \<Longrightarrow> circ_buf_resize mm (Some c) bytes = Return (Inr ()) (Some c')
            \<Longrightarrow> reachable c'"


text \<open>The same for a buffer of three bytes, a capacity that does not divide \<open>2\<^sup>3\<^sup>2\<close>.\<close>

definition zeros3 :: "nat \<Rightarrow> 32 circ_buf_s" where
  "zeros3 k = \<lparr>base = Some [0, 0, 0], size_bytes = 3, head = 3 * of_nat k,
               tail = 3 * of_nat k, external = False\<rparr>"

section \<open>The buffer-chain queue of mm/iob/iob\_get\_queue\_size.c\<close>

text \<open>
  Modelled from the spec: the declarations of \<^verbatim>\<open>struct iob_s\<close>,
  \<^verbatim>\<open>struct iob_qentry_s\<close> and \<^verbatim>\<open>struct iob_queue_s\<close> live in
  include/nuttx/mm/iob.h, which is not among the sources.  A segment has the length
  \<open>io_len\<close> of its data and the link \<open>io_flink\<close> to the next segment of its chain; a
  queue entry has the first segment \<open>qe_head\<close> of its chain and the link \<open>qe_flink\<close> to
  the next entry; a queue has its first entry \<open>qh_head\<close>.  A link is null or the object
  it points to, so every chain ends in a null link.  The type \<open>'n\<close> of \<open>io_len\<close> is some
  unsigned integer type.
\<close>

datatype 'n iob_s = Iob (io_len: 'n) (io_flink: "'n iob_s option")

datatype 'n iob_qentry_s = Qentry (qe_head: "'n iob_s option") (qe_flink: "'n iob_qentry_s option")

record 'n iob_queue_s =
  qh_head :: "'n iob_qentry_s option"

text \<open>
  The inner loop of \<open>iob_get_queue_size\<close>, from the segment \<open>iob\<close> on; \<open>total_acc\<close>
  is the local \<^verbatim>\<open>total\<close>, a \<^verbatim>\<open>size_t\<close>, to which each \<open>io_len\<close> is converted.
\<close>

fun iob_chain_size :: "('l::len) word iob_s option \<Rightarrow> ('a::len) word \<Rightarrow> 'a word" where
  "iob_chain_size None total_acc = total_acc"
| "iob_chain_size (Some (Iob len flink)) total_acc = iob_chain_size flink (total_acc + ucast len)"

text \<open>The outer loop of \<open>iob_get_queue_size\<close>, from the entry \<open>iobq\<close> on.\<close>

fun iob_entries_size :: "('l::len) word iob_qentry_s option \<Rightarrow> ('a::len) word \<Rightarrow> 'a word" where
  "iob_entries_size None total_acc = total_acc"
| "iob_entries_size (Some (Qentry qhead flink)) total_acc
     = iob_entries_size flink (iob_chain_size qhead total_acc)"

text \<open>The function itself; \<^verbatim>\<open>queue\<close> is dereferenced without a check, so it is not null.\<close>

definition iob_get_queue_size :: "('l::len) word iob_queue_s \<Rightarrow> ('a::len) word" where
  "iob_get_queue_size queue = iob_entries_size (qh_head queue) 0"

text \<open>The lengths of the segments of a chain, and the chains of the entries of a queue.\<close>

fun chain_lengths :: "('l::len) word iob_s option \<Rightarrow> nat list" where
  "chain_lengths None = []"
| "chain_lengths (Some (Iob len flink)) = unat len # chain_lengths flink"

fun entry_chains :: "'n iob_qentry_s option \<Rightarrow> 'n iob_s option list" where
  "entry_chains None = []"
| "entry_chains (Some (Qentry qhead flink)) = qhead # entry_chains flink"

definition total_length :: "('l::len) word iob_queue_s \<Rightarrow> nat" where
  "total_length queue = sum_list (map (\<lambda>ch. sum_list (chain_lengths ch)) (entry_chains (qh_head queue)))"

section \<open>Copying in two segments\<close>

lemma length_ring_read [simp]: "length (ring_read b sz off n) = n"
  by (simp add: ring_read_def)

lemma nth_ring_read [simp]: "i < n \<Longrightarrow> ring_read b sz off n ! i = b ! ((off + i) mod sz)"
  by (simp add: ring_read_def)

lemma two_segment_read:
  assumes "off < sz" "sz \<le> length b" "n \<le> sz" "len = min n (sz - off)"
  shows "take len (drop off b) @ take (n - len) b = ring_read b sz off n"
proof (rule nth_equalityI)
  show "length (take len (drop off b) @ take (n - len) b) = length (ring_read b sz off n)"
    using assms by auto
next
  fix i assume "i < length (take len (drop off b) @ take (n - len) b)"
  then have i: "i < n" using assms by auto
  show "(take len (drop off b) @ take (n - len) b) ! i = ring_read b sz off n ! i"
  proof (cases "i < len")
    case True
    then have "off + i < sz" using assms by auto
    then show ?thesis using True i assms by (simp add: nth_append)
  next
    case False
    then have l: "len = sz - off" "sz \<le> off + i" using assms i by auto
    then have "(off + i) mod sz = i - len" using assms i
      by (simp add: le_mod_geq)
    then show ?thesis using False i assms l by (simp add: nth_append)
  qed
qed

lemma ring_write_one:
  assumes "off + n \<le> sz"
  shows "ring_write b sz off xs n = take off b @ take n xs @ drop (off + n) b"
proof -
  have "min n (sz - off) = n" using assms by auto
  then show ?thesis by (simp add: ring_write_def Let_def)
qed

lemma ring_write_two:
  assumes "sz < off + n" "off < sz"
  shows "ring_write b sz off xs n =
     take (n - (sz - off)) (drop (sz - off) xs)
       @ drop (n - (sz - off)) (take off b @ take (sz - off) xs @ drop sz b)"
proof -
  have "min n (sz - off) = sz - off" using assms by auto
  then show ?thesis using assms by (simp add: ring_write_def Let_def)
qed

lemma length_ring_write:
  assumes "off < sz" "sz \<le> length b" "n \<le> sz" "n \<le> length xs"
  shows "length (ring_write b sz off xs n) = length b"
proof (cases "off + n \<le> sz")
  case True
  then show ?thesis using assms by (simp add: ring_write_one)
next
  case False
  then show ?thesis using assms by (simp add: ring_write_two)
qed

lemma ring_write_two_nth:
  assumes "sz < off + n" "off < sz" "sz \<le> length b" "n \<le> sz" "n \<le> length xs"
    and "p < length b"
  shows "ring_write b sz off xs n ! p =
     (if p < n - (sz - off) then xs ! (sz - off + p)
      else if p < off then b ! p
      else if p < sz then xs ! (p - off)
      else b ! p)"
proof -
  define k where "k = n - (sz - off)"
  define A where "A = take k (drop (sz - off) xs)"
  define B where "B = take off b @ take (sz - off) xs @ drop sz b"
  have lA: "length A = k" using assms by (simp add: A_def k_def)
  have lB: "length B = length b" using assms by (simp add: B_def)
  have k: "k \<le> off" using assms by (simp add: k_def)
  have rw: "ring_write b sz off xs n = A @ drop k B"
    using assms by (simp add: ring_write_two A_def B_def k_def)
  have Bp: "B ! p = (if p < off then b ! p else if p < sz then xs ! (p - off) else b ! p)"
  proof (cases "p < off")
    case True
    then show ?thesis using assms by (simp add: B_def nth_append)
  next
    case nlt: False
    show ?thesis
    proof (cases "p < sz")
      case True
      then have "p - off < sz - off" using nlt by arith
      then show ?thesis using nlt True assms by (simp add: B_def nth_append)
    next
      case False
      then have "sz - off \<le> p - off" "sz + (p - off - (sz - off)) = p"
        using nlt assms by arith+
      then show ?thesis using nlt False assms by (simp add: B_def nth_append)
    qed
  qed
  show ?thesis
  proof (cases "p < k")
    case True
    then have "(A @ drop k B) ! p = A ! p" using lA by (simp add: nth_append)
    also have "\<dots> = xs ! (sz - off + p)" using True assms by (simp add: A_def k_def)
    finally show ?thesis using True rw by (simp add: k_def)
  next
    case False
    then have "(A @ drop k B) ! p = drop k B ! (p - k)"
      using lA by (simp add: nth_append)
    also have "\<dots> = B ! (k + (p - k))"
      by (rule nth_drop) (use lB k assms in simp)
    also have "\<dots> = B ! p" using False by simp
    finally show ?thesis using False rw Bp by (simp add: k_def)
  qed
qed

lemma ring_write_one_nth:
  assumes "off + n \<le> sz" "sz \<le> length b" "n \<le> length xs" "p < length b"
  shows "ring_write b sz off xs n ! p =
     (if p < off then b ! p else if p < off + n then xs ! (p - off) else b ! p)"
proof -
  have rw: "ring_write b sz off xs n = take off b @ take n xs @ drop (off + n) b"
    using assms by (simp add: ring_write_one)
  show ?thesis
  proof (cases "p < off")
    case True
    then show ?thesis using assms rw by (simp add: nth_append)
  next
    case nlt: False
    show ?thesis
    proof (cases "p < off + n")
      case True
      then have "p - off < n" using nlt by arith
      then show ?thesis using nlt True assms rw by (simp add: nth_append)
    next
      case False
      then have "n \<le> p - off" "off + n + (p - off - n) = p" using nlt by arith+
      then show ?thesis using nlt False assms rw by (simp add: nth_append)
    qed
  qed
qed

lemma nth_ring_write_new:
  assumes "off < sz" "sz \<le> length b" "n \<le> sz" "n \<le> length xs" "i < n"
  shows "ring_write b sz off xs n ! ((off + i) mod sz) = xs ! i"
proof (cases "off + n \<le> sz")
  case True
  then have "(off + i) mod sz = off + i" using assms by simp
  moreover have "off + i < length b" using True assms by arith
  ultimately show ?thesis using True assms by (simp add: ring_write_one_nth)
next
  case False
  then have two: "sz < off + n" by simp
  show ?thesis
  proof (cases "off + i < sz")
    case True
    then have m: "(off + i) mod sz = off + i" by simp
    have "off + i < length b" "\<not> off + i < n - (sz - off)" using True assms by arith+
    then show ?thesis using True two assms unfolding m
      by (simp add: ring_write_two_nth)
  next
    case False
    then have m: "(off + i) mod sz = off + i - sz" using assms by (simp add: le_mod_geq)
    have "off + i - sz < n - (sz - off)" "off + i - sz < length b"
      "sz - off + (off + i - sz) = i" using False assms by arith+
    then show ?thesis using two assms unfolding m
      by (simp add: ring_write_two_nth)
  qed
qed

lemma nth_ring_write_old:
  assumes "off < sz" "sz \<le> length b" "n \<le> sz" "n \<le> length xs" "p < length b"
    and other: "\<And>i. i < n \<Longrightarrow> p \<noteq> (off + i) mod sz"
  shows "ring_write b sz off xs n ! p = b ! p"
proof (cases "off + n \<le> sz")
  case True
  have "\<not> (off \<le> p \<and> p < off + n)"
  proof
    assume a: "off \<le> p \<and> p < off + n"
    then have "p - off < n" "(off + (p - off)) mod sz = p" using True by auto
    then show False using other by metis
  qed
  then show ?thesis using True assms(1-5) by (auto simp: ring_write_one_nth)
next
  case False
  then have two: "sz < off + n" by simp
  have a: "\<not> p < n - (sz - off)"
  proof
    assume a: "p < n - (sz - off)"
    then have "p + (sz - off) < n" by arith
    moreover have "(off + (p + (sz - off))) mod sz = p"
      using a assms two by (simp add: le_mod_geq)
    ultimately show False using other by metis
  qed
  have b: "\<not> (off \<le> p \<and> p < sz)"
  proof
    assume a: "off \<le> p \<and> p < sz"
    then have "p - off < n" "(off + (p - off)) mod sz = p" using two by auto
    then show False using other by metis
  qed
  show ?thesis using a b two assms(1-5) by (auto simp: ring_write_two_nth)
qed


lemma memcpy_Some:
  assumes "d + n \<le> length db" "s + n \<le> length sb"
  shows "memcpy (Some db) d (Some sb) s n
           = Inr (Some (take d db @ take n (drop s sb) @ drop (d + n) db))"
  using assms by (simp add: memcpy_def)

lemma word_offset_facts:
  fixes s t :: "('a::len) word"
  assumes "s \<noteq> 0"
  shows "unat (t mod s) = unat t mod unat s" "unat (t mod s) < unat s"
    "unat (s - t mod s) = unat s - unat (t mod s)"
proof -
  have pos: "0 < unat s" using assms by (simp add: unat_gt_0)
  show 1: "unat (t mod s) = unat t mod unat s" by (simp add: unat_mod)
  show 2: "unat (t mod s) < unat s" using pos by (simp add: 1)
  have "t mod s \<le> s" using 2 by (simp add: word_le_nat_alt)
  then show "unat (s - t mod s) = unat s - unat (t mod s)" by (simp add: unat_sub)
qed

lemma peek_Some:
  fixes c :: "('a::len) circ_buf_s"
  assumes b: "base c = Some b" and sz: "size_bytes c \<noteq> 0" "unat (size_bytes c) \<le> length b"
    and u: "head c - tail c \<le> size_bytes c"
    and n: "n = min bytes (head c - tail c)"
    and d: "unat n \<le> length d"
  shows "circ_buf_peek (Some c) (Some d) bytes
           = Return (Inr n)
               (Some c, Some (ring_read b (unat (size_bytes c)) (unat (tail c mod size_bytes c)) (unat n)
                                @ drop (unat n) d))"
proof -
  define off where "off = tail c mod size_bytes c"
  define len where "len = (if n < size_bytes c - off then n else size_bytes c - off)"
  note wf = word_offset_facts [OF sz(1), of "tail c", folded off_def]
  have n_le: "unat n \<le> unat (size_bytes c)"
    using u n by (simp add: word_le_nat_alt min_def split: if_splits)
  have len_le: "len \<le> n" by (simp add: len_def not_less)
  have ulen: "unat len = min (unat n) (unat (size_bytes c) - unat off)"
    using wf(3) by (auto simp: len_def word_less_nat_alt)
  have urest: "unat (n - len) = unat n - unat len"
    using len_le by (simp add: unat_sub)
  have n': "(if head c - tail c < bytes then head c - tail c else bytes) = n"
    by (auto simp: n min_def)
  have kle: "unat len \<le> unat n" "unat len \<le> unat (size_bytes c) - unat off"
    using ulen by simp_all
  have m1: "memcpy (Some d) 0 (Some b) (unat off) (unat len)
              = Inr (Some (take (unat len) (drop (unat off) b) @ drop (unat len) d))"
    using memcpy_Some [of 0 "unat len" d "unat off" b] d sz(2) wf(2) kle by simp
  have m2: "memcpy (Some (take (unat len) (drop (unat off) b) @ drop (unat len) d)) (unat len)
               (Some b) 0 (unat n - unat len)
              = Inr (Some (take (unat len) (drop (unat off) b) @ take (unat n - unat len) b
                       @ drop (unat n) d))"
  proof -
    have l1: "length (take (unat len) (drop (unat off) b)) = unat len"
      using sz(2) wf(2) kle by simp
    have "unat n - unat len \<le> length b" using n_le sz(2) by arith
    moreover have "unat len + (unat n - unat len) = unat n" using kle by simp
    moreover have "unat n \<le> length (take (unat len) (drop (unat off) b) @ drop (unat len) d)"
      using l1 d kle by simp
    ultimately show ?thesis
      using memcpy_Some [of "unat len" "unat n - unat len"
          "take (unat len) (drop (unat off) b) @ drop (unat len) d" 0 b] l1
      by simp
  qed
  have seg: "take (unat len) (drop (unat off) b) @ take (unat n - unat len) b
               = ring_read b (unat (size_bytes c)) (unat off) (unat n)"
    using two_segment_read [OF wf(2) sz(2) n_le ulen] .
  have "circ_buf_peek (Some c) (Some d) bytes
          = (case memcpy (Some d) 0 (Some b) (unat off) (unat len) of
               Inl t \<Rightarrow> Trap t
             | Inr dst1 \<Rightarrow>
                 (case memcpy dst1 (unat len) (Some b) 0 (unat (n - len)) of
                    Inl t \<Rightarrow> Trap t
                  | Inr dst2 \<Rightarrow> Return (Inr n) (Some c, dst2)))"
    by (simp only: circ_buf_peek_def Let_def circ_buf_used_def option.case n' sz(1) if_False b
          off_def [symmetric] len_def [symmetric])
  then have "circ_buf_peek (Some c) (Some d) bytes
          = Return (Inr n)
              (Some c, Some ((take (unat len) (drop (unat off) b) @ take (unat n - unat len) b)
                               @ drop (unat n) d))"
    by (simp only: m1 m2 urest sum.case append_assoc)
  then show ?thesis by (simp only: seg) (simp only: off_def)
qed

lemma two_segment_memcpy:
  assumes "off < sz" "sz \<le> length b" "n \<le> sz" "sk + n \<le> length x"
    and len: "len = min n (sz - off)"
  shows "(case memcpy (Some b) off (Some x) sk len of
            Inl t \<Rightarrow> Trap t
          | Inr b1 \<Rightarrow>
              (case memcpy b1 0 (Some x) (sk + len) (n - len) of
                 Inl t \<Rightarrow> Trap t
               | Inr b2 \<Rightarrow> Return r (f b2)))
         = Return r (f (Some (ring_write b sz off (drop sk x) n)))"
proof -
  define b1 where "b1 = take off b @ take len (drop sk x) @ drop (off + len) b"
  have kle: "len \<le> n" "len \<le> sz - off" using len by simp_all
  have m1: "memcpy (Some b) off (Some x) sk len = Inr (Some b1)"
    unfolding b1_def using assms(1-4) kle by (intro memcpy_Some) arith+
  have l1: "length b1 = length b" using assms(1-4) kle by (simp add: b1_def)
  have "memcpy (Some b1) 0 (Some x) (sk + len) (n - len)
          = Inr (Some (take 0 b1 @ take (n - len) (drop (sk + len) x) @ drop (0 + (n - len)) b1))"
    using assms(1-4) kle l1 by (intro memcpy_Some) arith+
  also have "take 0 b1 @ take (n - len) (drop (sk + len) x) @ drop (0 + (n - len)) b1
               = ring_write b sz off (drop sk x) n"
    by (simp add: ring_write_def Let_def len [symmetric] b1_def add.commute)
  finally show ?thesis by (simp add: m1)
qed

lemma write_Some:
  fixes c :: "('a::len) circ_buf_s"
  assumes b: "base c = Some b" and sz: "size_bytes c \<noteq> 0" "unat (size_bytes c) \<le> length b"
    and u: "head c - tail c \<le> size_bytes c"
    and n: "n = min bytes (size_bytes c - (head c - tail c))"
    and x: "unat n \<le> length x"
  shows "circ_buf_write (Some c) (Some x) bytes
           = Return (Inr n)
               (Some (c\<lparr>base := Some (ring_write b (unat (size_bytes c))
                                         (unat (head c mod size_bytes c)) x (unat n)),
                        head := head c + n\<rparr>))"
proof -
  define off where "off = head c mod size_bytes c"
  define len where "len = (if n < size_bytes c - off then n else size_bytes c - off)"
  note wf = word_offset_facts [OF sz(1), of "head c", folded off_def]
  have "n \<le> size_bytes c - (head c - tail c)" by (simp add: n)
  moreover have "unat (size_bytes c - (head c - tail c)) \<le> unat (size_bytes c)"
    using u by (simp add: unat_sub)
  ultimately have n_le: "unat n \<le> unat (size_bytes c)" by (simp add: word_le_nat_alt)
  have len_le: "len \<le> n" by (simp add: len_def not_less)
  have ulen: "unat len = min (unat n) (unat (size_bytes c) - unat off)"
    using wf(3) by (auto simp: len_def word_less_nat_alt)
  have urest: "unat (n - len) = unat n - unat len"
    using len_le by (simp add: unat_sub)
  have n': "(if size_bytes c - (head c - tail c) < bytes
             then size_bytes c - (head c - tail c) else bytes) = n"
    by (auto simp: n min_def)
  have "circ_buf_write (Some c) (Some x) bytes
          = (case memcpy (Some b) (unat off) (Some x) 0 (unat len) of
               Inl t \<Rightarrow> Trap t
             | Inr b1 \<Rightarrow>
                 (case memcpy b1 0 (Some x) (0 + unat len) (unat n - unat len) of
                    Inl t \<Rightarrow> Trap t
                  | Inr b2 \<Rightarrow>
                      Return (Inr n) ((\<lambda>b2. Some (c\<lparr>base := b2, head := head c + n\<rparr>)) b2)))"
    by (simp only: circ_buf_write_def Let_def circ_buf_space_def circ_buf_size_def
          circ_buf_used_def option.case n' sz(1) if_False b option.distinct
          off_def [symmetric] len_def [symmetric] urest add_0)
  also have "\<dots> = Return (Inr n)
       ((\<lambda>b2. Some (c\<lparr>base := b2, head := head c + n\<rparr>))
          (Some (ring_write b (unat (size_bytes c)) (unat off) (drop 0 x) (unat n))))"
    using wf(2) sz(2) n_le x ulen by (intro two_segment_memcpy) simp_all
  finally show ?thesis by (simp add: off_def)
qed

section \<open>What each operation returns\<close>



lemma skip_result:
  "circ_buf_skip (Some c) bytes
     = (Inr (min bytes (head c - tail c)),
        Some (c\<lparr>tail := tail c + min bytes (head c - tail c)\<rparr>))"
  by (auto simp: circ_buf_skip_def Let_def circ_buf_used_def min_def)








section \<open>The resident bytes after a store\<close>

lemma ring_offset_inj:
  assumes "(t + i) mod sz = (t + k) mod sz" "i \<le> k" "k - i < sz"
  shows "i = (k::nat)"
proof -
  have "sz dvd (t + k) - (t + i)"
    using assms by (metis add_le_cancel_left mod_eq_dvd_iff_nat)
  then have "sz dvd k - i" by simp
  then have "k - i = 0" using assms(3) by (metis dvd_imp_le not_less zero_less_iff_neq_zero)
  then show ?thesis using assms(2) by simp
qed

lemma ring_read_shift:
  "ring_read b sz ((off + k) mod sz) m = drop k (ring_read b sz off (k + m))"
proof (rule nth_equalityI)
  show "length (ring_read b sz ((off + k) mod sz) m) = length (drop k (ring_read b sz off (k + m)))"
    by simp
next
  fix i assume "i < length (ring_read b sz ((off + k) mod sz) m)"
  then have i: "i < m" by simp
  have "((off + k) mod sz + i) mod sz = (off + (k + i)) mod sz"
    by (simp add: mod_add_left_eq add.assoc)
  then show "ring_read b sz ((off + k) mod sz) m ! i = drop k (ring_read b sz off (k + m)) ! i"
    using i by simp
qed

lemma ring_read_append:
  "ring_read b sz off (u + n) = ring_read b sz off u @ ring_read b sz ((off + u) mod sz) n"
proof (rule nth_equalityI)
  show "length (ring_read b sz off (u + n))
          = length (ring_read b sz off u @ ring_read b sz ((off + u) mod sz) n)"
    by simp
next
  fix i assume "i < length (ring_read b sz off (u + n))"
  then have i: "i < u + n" by simp
  show "ring_read b sz off (u + n) ! i
          = (ring_read b sz off u @ ring_read b sz ((off + u) mod sz) n) ! i"
  proof (cases "i < u")
    case True
    then show ?thesis using i by (simp add: nth_append)
  next
    case False
    then have "off + i = off + u + (i - u)" by arith
    then have "(off + i) mod sz = (off + u + (i - u)) mod sz" by simp
    also have "\<dots> = ((off + u) mod sz + (i - u)) mod sz"
      by (rule mod_add_left_eq [symmetric])
    finally show ?thesis using False i by (simp add: nth_append)
  qed
qed

lemma ring_read_written:
  assumes "off < sz" "sz \<le> length b" "n \<le> sz" "n \<le> length xs"
  shows "ring_read (ring_write b sz off xs n) sz off n = take n xs"
proof (rule nth_equalityI)
  show "length (ring_read (ring_write b sz off xs n) sz off n) = length (take n xs)"
    using assms by simp
next
  fix i assume "i < length (ring_read (ring_write b sz off xs n) sz off n)"
  then have "i < n" by simp
  then show "ring_read (ring_write b sz off xs n) sz off n ! i = take n xs ! i"
    using nth_ring_write_new [OF assms] by simp
qed

lemma ring_read_kept:
  assumes "off < sz" "sz \<le> length b" "n \<le> sz" "n \<le> length xs"
    and "k \<le> u" "u - k + n \<le> sz"
  shows "ring_read (ring_write b sz ((off + u) mod sz) xs n) sz ((off + k) mod sz) (u - k)
           = ring_read b sz ((off + k) mod sz) (u - k)"
proof (rule nth_equalityI)
  show "length (ring_read (ring_write b sz ((off + u) mod sz) xs n) sz ((off + k) mod sz) (u - k))
          = length (ring_read b sz ((off + k) mod sz) (u - k))"
    by simp
next
  fix i
  assume "i < length (ring_read (ring_write b sz ((off + u) mod sz) xs n) sz ((off + k) mod sz) (u - k))"
  then have i: "i < u - k" by simp
  have h: "(off + u) mod sz < sz" using assms by simp
  define p where "p = ((off + k) mod sz + i) mod sz"
  have p_eq: "p = (off + (k + i)) mod sz"
    by (simp add: p_def mod_add_left_eq add.assoc)
  have "p < sz" using assms by (simp add: p_def)
  then have pl: "p < length b" using assms by arith
  have "p \<noteq> ((off + u) mod sz + j) mod sz" if "j < n" for j
  proof
    assume "p = ((off + u) mod sz + j) mod sz"
    then have "(off + (k + i)) mod sz = (off + (u + j)) mod sz"
      by (simp add: p_eq mod_add_left_eq add.assoc)
    moreover have "k + i \<le> u + j" "u + j - (k + i) < sz" using i that assms by arith+
    ultimately have "k + i = u + j" by (rule ring_offset_inj)
    then show False using i by arith
  qed
  then have "ring_write b sz ((off + u) mod sz) xs n ! p = b ! p"
    using nth_ring_write_old [OF h assms(2,3,4) pl] by blast
  then show "ring_read (ring_write b sz ((off + u) mod sz) xs n) sz ((off + k) mod sz) (u - k) ! i
               = ring_read b sz ((off + k) mod sz) (u - k) ! i"
    using i by (simp add: p_def)
qed

lemma ring_read_write_evict:
  assumes "off < sz" "sz \<le> length b" "n \<le> sz" "n \<le> length xs"
    and "k \<le> u" "u - k + n \<le> sz"
  shows "ring_read (ring_write b sz ((off + u) mod sz) xs n) sz ((off + k) mod sz) (u - k + n)
           = drop k (ring_read b sz off u) @ take n xs"
proof -
  let ?b' = "ring_write b sz ((off + u) mod sz) xs n"
  have h: "(off + u) mod sz < sz" using assms by simp
  have "off + u = off + k + (u - k)" using assms(5) by arith
  then have "(off + u) mod sz = (off + k + (u - k)) mod sz" by simp
  also have "\<dots> = ((off + k) mod sz + (u - k)) mod sz"
    by (rule mod_add_left_eq [symmetric])
  finally have e: "((off + k) mod sz + (u - k)) mod sz = (off + u) mod sz" by simp
  have "ring_read ?b' sz ((off + k) mod sz) (u - k + n)
          = ring_read ?b' sz ((off + k) mod sz) (u - k) @ ring_read ?b' sz ((off + u) mod sz) n"
    by (simp only: ring_read_append e)
  also have "ring_read ?b' sz ((off + k) mod sz) (u - k) = ring_read b sz ((off + k) mod sz) (u - k)"
    using assms by (rule ring_read_kept)
  also have "ring_read b sz ((off + k) mod sz) (u - k) = drop k (ring_read b sz off (k + (u - k)))"
    by (rule ring_read_shift)
  also have "ring_read ?b' sz ((off + u) mod sz) n = take n xs"
    using h assms(2,3,4) by (rule ring_read_written)
  finally show ?thesis using assms(5) by simp
qed

lemma overwrite_Some:
  fixes c :: "('a::len) circ_buf_s"
  assumes b: "base c = Some b" and sz: "size_bytes c \<noteq> 0" "unat (size_bytes c) \<le> length b"
    and n: "n = min bytes (size_bytes c)"
    and x: "unat bytes \<le> length x"
  shows "circ_buf_overwrite (Some c) (Some x) bytes
           = Return (Inr (evicted c bytes))
               (Some (c\<lparr>base := Some (ring_write b (unat (size_bytes c))
                                         (unat (head c mod size_bytes c))
                                         (drop (unat bytes - unat n) x) (unat n)),
                        head := head c + n, tail := tail c + evicted c bytes\<rparr>))"
proof -
  define off where "off = head c mod size_bytes c"
  define len where "len = (if n < size_bytes c - off then n else size_bytes c - off)"
  define sk where "sk = (if size_bytes c < bytes then unat (bytes - size_bytes c) else 0)"
  note wf = word_offset_facts [OF sz(1), of "head c", folded off_def]
  have "n \<le> size_bytes c" "n \<le> bytes" by (simp_all add: n)
  then have n_le: "unat n \<le> unat (size_bytes c)" and n_le': "unat n \<le> unat bytes"
    by (simp_all only: word_le_nat_alt)
  have sk: "sk = unat bytes - unat n"
    by (auto simp: sk_def n min_def unat_sub word_le_nat_alt word_less_nat_alt)
  have len_le: "len \<le> n" by (simp add: len_def not_less)
  have ulen: "unat len = min (unat n) (unat (size_bytes c) - unat off)"
    using wf(3) by (auto simp: len_def word_less_nat_alt)
  have urest: "unat (n - len) = unat n - unat len"
    using len_le by (simp add: unat_sub)
  have n': "(if size_bytes c < bytes then size_bytes c else bytes) = n"
    by (auto simp: n min_def)
  have ev: "(if size_bytes c - (head c - tail c) < n
             then n - (size_bytes c - (head c - tail c)) else 0) = evicted c bytes"
    by (simp only: evicted_def n)
  have "circ_buf_overwrite (Some c) (Some x) bytes
          = (case memcpy (Some b) (unat off) (Some x) sk (unat len) of
               Inl t \<Rightarrow> Trap t
             | Inr b1 \<Rightarrow>
                 (case memcpy b1 0 (Some x) (sk + unat len) (unat n - unat len) of
                    Inl t \<Rightarrow> Trap t
                  | Inr b2 \<Rightarrow>
                      Return (Inr (evicted c bytes))
                        ((\<lambda>b2. Some (c\<lparr>base := b2, head := head c + n,
                                         tail := tail c + evicted c bytes\<rparr>)) b2)))"
    by (simp only: circ_buf_overwrite_def Let_def circ_buf_space_def circ_buf_size_def
          circ_buf_used_def option.case n' ev sz(1) if_False b option.distinct
          off_def [symmetric] len_def [symmetric] sk_def [symmetric] urest)
  also have "\<dots> = Return (Inr (evicted c bytes))
       ((\<lambda>b2. Some (c\<lparr>base := b2, head := head c + n, tail := tail c + evicted c bytes\<rparr>))
          (Some (ring_write b (unat (size_bytes c)) (unat off) (drop sk x) (unat n))))"
    using wf(2) sz(2) n_le x ulen n_le' by (intro two_segment_memcpy) (simp_all add: sk)
  finally show ?thesis by (simp add: off_def sk)
qed

lemma well_formed_unat:
  fixes c :: "('a::len) circ_buf_s"
  assumes "well_formed c"
  shows "unat (head c - tail c) \<le> unat (size_bytes c)"
  using assms by (simp add: well_formed_def word_le_nat_alt)

lemma aligned_offset:
  fixes c :: "('a::len) circ_buf_s"
  assumes al: "cursors_aligned c" and k: "k \<le> head c - tail c"
  shows "unat (tail c + k) mod unat (size_bytes c)
           = (unat (tail c) + unat k) mod unat (size_bytes c)"
proof -
  have e: "unat (tail c + k) = (unat (tail c) + unat k) mod 2 ^ LENGTH('a)"
    by (simp add: unat_word_ariths)
  from al have "tail c \<le> head c \<or> unat (size_bytes c) dvd 2 ^ LENGTH('a)"
    by (simp add: cursors_aligned_def)
  then show ?thesis
  proof
    assume "tail c \<le> head c"
    then have "tail c \<le> tail c + (head c - tail c)" by simp
    then have "unat (tail c) + unat (head c - tail c) < 2 ^ LENGTH('a)"
      by (simp only: no_olen_add_nat)
    moreover have "unat k \<le> unat (head c - tail c)" using k by (simp add: word_le_nat_alt)
    ultimately have "unat (tail c) + unat k < 2 ^ LENGTH('a)" by arith
    then show ?thesis by (simp add: e)
  next
    assume "unat (size_bytes c) dvd 2 ^ LENGTH('a)"
    then show ?thesis unfolding e by (rule mod_mod_cancel)
  qed
qed

lemma resident_after_store:
  fixes c :: "('a::len) circ_buf_s"
  assumes wf: "well_formed c" and al: "cursors_aligned c"
    and b: "base c = Some b" and sz: "size_bytes c \<noteq> 0"
    and ov: "ov \<le> head c - tail c"
    and fit: "unat (head c - tail c) - unat ov + unat n \<le> unat (size_bytes c)"
    and xs: "unat n \<le> length xs"
  shows "resident (c\<lparr>base := Some (ring_write b (unat (size_bytes c))
                                   (unat (head c mod size_bytes c)) xs (unat n)),
                     head := head c + n, tail := tail c + ov\<rparr>)
           = drop (unat ov) (resident c) @ take (unat n) xs"
proof -
  define szn where "szn = unat (size_bytes c)"
  define toff where "toff = unat (tail c) mod szn"
  define u where "u = unat (head c - tail c)"
  have pos: "0 < szn" using sz by (simp add: szn_def unat_gt_0)
  have bl: "szn \<le> length b" using wf b by (simp add: well_formed_def szn_def)
  have ovu: "unat ov \<le> u" using ov by (simp add: u_def word_le_nat_alt)
  have lim: "unat (size_bytes c) < 2 ^ LENGTH('a)" by (rule unsigned_less)
  have "unat (tail c + (head c - tail c)) mod szn = (unat (tail c) + u) mod szn"
    unfolding szn_def u_def using al order_refl by (rule aligned_offset)
  then have hoff: "unat (head c mod size_bytes c) = (toff + u) mod szn"
    by (simp add: unat_mod toff_def szn_def [symmetric] mod_add_left_eq)
  have "unat (tail c + ov) mod szn = (unat (tail c) + unat ov) mod szn"
    unfolding szn_def using al ov by (rule aligned_offset)
  then have toff': "unat ((tail c + ov) mod size_bytes c) = (toff + unat ov) mod szn"
    by (simp add: unat_mod toff_def szn_def [symmetric] mod_add_left_eq)
  have e: "head c + n - (tail c + ov) = (head c - tail c - ov) + n" by simp
  have u1: "unat (head c - tail c - ov) = u - unat ov"
    using ov by (simp add: unat_sub u_def)
  have "u - unat ov + unat n < 2 ^ LENGTH('a)"
    using fit [folded u_def] lim by (rule le_less_trans)
  then have u2: "unat (head c + n - (tail c + ov)) = u - unat ov + unat n"
    unfolding e using unat_add_lem [of "head c - tail c - ov" n] u1 by simp
  have toffl: "toff < szn" using pos by (simp add: toff_def)
  have nle: "unat n \<le> szn" using fit by (simp add: szn_def)
  have "ring_read (ring_write b szn ((toff + u) mod szn) xs (unat n)) szn
          ((toff + unat ov) mod szn) (u - unat ov + unat n)
        = drop (unat ov) (ring_read b szn toff u) @ take (unat n) xs"
    using toffl bl nle xs ovu fit [folded u_def szn_def] by (rule ring_read_write_evict)
  moreover have "unat (tail c mod size_bytes c) = toff"
    by (simp add: unat_mod toff_def szn_def)
  ultimately show ?thesis
    using b by (simp add: resident_def hoff toff' u2 szn_def [symmetric] u_def [symmetric])
qed

section \<open>Rounds of writing and skipping\<close>





lemma ring_write_zeros3:
  assumes "off < 3"
  shows "ring_write [0, 0, 0] 3 off [0, 0, 0] 3 = [0, 0, 0 :: byte]"
proof -
  have "off = 0 \<or> off = 1 \<or> off = 2" using assms by arith
  then show ?thesis by (elim disjE) (simp_all add: ring_write_def)
qed

lemma write_zeros3:
  "circ_buf_write (Some (zeros3 k)) (Some [0, 0, 0]) 3
     = Return (Inr 3) (Some ((zeros3 k)\<lparr>head := 3 * of_nat k + 3\<rparr>))"
proof -
  have sz: "size_bytes (zeros3 k) \<noteq> 0" by (simp add: zeros3_def)
  have "unat (head (zeros3 k) mod size_bytes (zeros3 k)) < unat (size_bytes (zeros3 k))"
    using sz by (rule word_offset_facts(2))
  then have off: "unat (head (zeros3 k) mod size_bytes (zeros3 k)) < 3"
    by (simp add: zeros3_def)
  have "circ_buf_write (Some (zeros3 k)) (Some [0, 0, 0]) 3
     = Return (Inr 3)
         (Some ((zeros3 k)\<lparr>base := Some (ring_write [0, 0, 0] (unat (size_bytes (zeros3 k)))
                    (unat (head (zeros3 k) mod size_bytes (zeros3 k))) [0, 0, 0] (unat (3 :: 32 word))),
                  head := head (zeros3 k) + 3\<rparr>))"
    by (rule write_Some) (simp_all add: zeros3_def)
  moreover have "ring_write [0, 0, 0] (unat (size_bytes (zeros3 k)))
                    (unat (head (zeros3 k) mod size_bytes (zeros3 k))) [0, 0, 0] (unat (3 :: 32 word))
                  = [0, 0, 0 :: byte]"
    using ring_write_zeros3 [OF off] by (simp add: zeros3_def)
  ultimately show ?thesis by (simp add: zeros3_def)
qed

lemma reachable_zeros3: "reachable (zeros3 k)"
proof (induction k)
  case 0
  have "circ_buf_init (\<lambda>n :: 32 word. Some (\<lambda>i. 0))
          (Some \<lparr>base = None, size_bytes = 0, head = 0, tail = 0, external = False\<rparr>) None 3
          = (Inr (), Some (zeros3 0))"
    by (simp add: circ_buf_init_def kmm_malloc_def zeros3_def upt_rec)
  then show ?case by (rule r_init)
next
  case (Suc k)
  have w: "reachable ((zeros3 k)\<lparr>head := 3 * of_nat k + 3\<rparr>)"
    using Suc write_zeros3 by (rule r_write)
  have "circ_buf_skip (Some ((zeros3 k)\<lparr>head := 3 * of_nat k + 3\<rparr>)) 3
          = (Inr 3, Some (zeros3 (Suc k)))"
    by (simp add: skip_result zeros3_def)
  with w show ?case by (rule r_skip)
qed

lemma zeros3_before_wrap:
  "zeros3 1431655765 = \<lparr>base = Some [0, 0, 0], size_bytes = 3, head = 4294967295,
                          tail = 4294967295, external = False\<rparr>"
  by (simp add: zeros3_def)

lemma reachable_wrapped_two:
  "reachable (\<lparr>base = Some [65, 66, 0], size_bytes = 3, head = 1, tail = 4294967295,
               external = False\<rparr> :: 32 circ_buf_s)"
proof -
  have "circ_buf_write (Some (zeros3 1431655765)) (Some [65, 66]) 2
          = Return (Inr 2)
              (Some \<lparr>base = Some [65, 66, 0], size_bytes = 3, head = 1, tail = 4294967295,
                     external = False\<rparr>)"
    unfolding zeros3_before_wrap
    by (simp add: circ_buf_write_def circ_buf_space_def circ_buf_size_def circ_buf_used_def
        memcpy_def Let_def)
  with reachable_zeros3 show ?thesis by (rule r_write)
qed


section \<open>Operations on a buffer that satisfies the invariants\<close>


lemma read_Some:
  fixes c :: "('a::len) circ_buf_s"
  assumes b: "base c = Some b" and sz: "size_bytes c \<noteq> 0" "unat (size_bytes c) \<le> length b"
    and u: "head c - tail c \<le> size_bytes c"
    and n: "n = min bytes (head c - tail c)"
    and d: "unat n \<le> length d"
  shows "circ_buf_read (Some c) (Some d) bytes
           = Return (Inr n)
               (Some (c\<lparr>tail := tail c + n\<rparr>),
                Some (ring_read b (unat (size_bytes c)) (unat (tail c mod size_bytes c)) (unat n)
                        @ drop (unat n) d))"
  by (simp add: circ_buf_read_def peek_Some [OF assms] ssize_to_size_def)

lemma unat_min_le:
  fixes a b :: "('a::len) word"
  shows "unat (min a b) \<le> unat a" "unat (min a b) \<le> unat b"
proof -
  have "min a b \<le> a" "min a b \<le> b" by simp_all
  then show "unat (min a b) \<le> unat a" "unat (min a b) \<le> unat b"
    by (simp_all only: word_le_nat_alt)
qed





section \<open>The loops of the queue size\<close>

lemma iob_chain_size_sum:
  "iob_chain_size ch total_acc = total_acc + of_nat (sum_list (chain_lengths ch))"
  by (induction ch total_acc rule: iob_chain_size.induct) (simp_all add: add.assoc)

lemma iob_entries_size_sum:
  "iob_entries_size es total_acc
     = total_acc + of_nat (sum_list (map (\<lambda>ch. sum_list (chain_lengths ch)) (entry_chains es)))"
  by (induction es total_acc rule: iob_entries_size.induct)
    (simp_all add: iob_chain_size_sum add.assoc)

section \<open>Queries on an absent handle\<close>

text \<open>
  C7 (as amended).  The five queries are functions of the handle alone: they return a
  value and no new state, as the C functions contain no assignment.  On a null handle
  \<open>circ_buf_size\<close>, \<open>circ_buf_used\<close> and \<open>circ_buf_space\<close> return 0, while
  \<open>circ_buf_is_empty\<close> and \<open>circ_buf_is_full\<close> both return true: each negates a
  count that is 0.
\<close>

theorem queries_on_null_handle:
  "circ_buf_size (None :: ('a::len) circ_buf_s option) = 0
   \<and> circ_buf_used (None :: 'a circ_buf_s option) = 0
   \<and> circ_buf_space (None :: 'a circ_buf_s option) = 0
   \<and> circ_buf_is_empty (None :: 'a circ_buf_s option)
   \<and> circ_buf_is_full (None :: 'a circ_buf_s option)"
  by (simp add: circ_buf_size_def circ_buf_used_def circ_buf_space_def
      circ_buf_is_empty_def circ_buf_is_full_def)

text \<open>
  C7 as stated fails: on a null handle neither \<open>circ_buf_is_empty\<close> nor
  \<open>circ_buf_is_full\<close> returns false.
\<close>

theorem is_empty_null_not_false:
  "\<not> (circ_buf_is_empty (None :: 32 circ_buf_s option) = False)
   \<and> \<not> (circ_buf_is_full (None :: 32 circ_buf_s option) = False)"
  by (simp add: circ_buf_is_empty_def circ_buf_is_full_def circ_buf_used_def
      circ_buf_space_def circ_buf_size_def)

section \<open>A buffer of capacity zero\<close>

text \<open>
  C10.  \<open>circ_buf_init\<close> with no borrowed block and capacity 0 returns 0 and leaves a
  buffer of capacity 0 without storage.  On that buffer \<open>circ_buf_peek\<close>,
  \<open>circ_buf_read\<close> and \<open>circ_buf_write\<close> take the cursor modulo the capacity, which
  is 0: no check stands before the remainder, and each call ends in the trap of a
  division by zero.
\<close>

theorem zero_capacity_modulo_by_zero:
  fixes mm :: "('a::len) allocator" and c0 :: "'a circ_buf_s"
  shows "circ_buf_init mm (Some c0) None 0
           = (Inr (), Some (c0\<lparr>external := False, base := None, size_bytes := 0,
                                 head := 0, tail := 0\<rparr>))
   \<and> circ_buf_peek (snd (circ_buf_init mm (Some c0) None 0)) dst n = Trap DivideByZero
   \<and> circ_buf_read (snd (circ_buf_init mm (Some c0) None 0)) (Some d) n = Trap DivideByZero
   \<and> circ_buf_write (snd (circ_buf_init mm (Some c0) None 0)) (Some s) n = Trap DivideByZero"
  by (simp add: circ_buf_init_def circ_buf_peek_def circ_buf_read_def circ_buf_write_def)

section \<open>Failure of resize\<close>

text \<open>
  C6.  \<open>circ_buf_resize\<close> returns \<open>-EINVAL\<close> for every borrowed buffer and
  \<open>-ENOMEM\<close> when the allocation of the new block fails, and whenever it returns an
  error the buffer is, field for field, what it was before the call.
\<close>

theorem resize_failure_leaves_buffer:
  fixes mm :: "('a::len) allocator" and c :: "'a circ_buf_s"
  shows "(external c \<longrightarrow> circ_buf_resize mm (Some c) bytes = Return (Inl EINVAL) (Some c))
   \<and> (\<not> external c \<and> mm bytes = None \<longrightarrow>
         circ_buf_resize mm (Some c) bytes = Return (Inl ENOMEM) (Some c))
   \<and> (\<forall>e circ'. circ_buf_resize mm circ bytes = Return (Inl e) circ' \<longrightarrow> circ' = circ)"
  by (auto simp: circ_buf_resize_def kmm_malloc_def Let_def
      split: option.splits outcome.splits prod.splits)

theorem resize_failure_leaves_buffer_witness:
  "external \<lparr>base = Some [1, 2, 3, 4], size_bytes = 4 :: 32 word, head = 3, tail = 1,
             external = True\<rparr>
   \<and> circ_buf_resize (\<lambda>n. Some (\<lambda>i. 0))
        (Some \<lparr>base = Some [1, 2, 3, 4], size_bytes = 4 :: 32 word, head = 3, tail = 1,
               external = True\<rparr>) 8
      = Return (Inl EINVAL)
        (Some \<lparr>base = Some [1, 2, 3, 4], size_bytes = 4, head = 3, tail = 1, external = True\<rparr>)
   \<and> \<not> external \<lparr>base = Some [1, 2, 3, 4], size_bytes = 4 :: 32 word, head = 3, tail = 1,
                 external = False\<rparr>
   \<and> (\<lambda>n :: 32 word. None :: (nat \<Rightarrow> byte) option) 8 = None
   \<and> circ_buf_resize (\<lambda>n. None)
        (Some \<lparr>base = Some [1, 2, 3, 4], size_bytes = 4 :: 32 word, head = 3, tail = 1,
               external = False\<rparr>) 8
      = Return (Inl ENOMEM)
        (Some \<lparr>base = Some [1, 2, 3, 4], size_bytes = 4, head = 3, tail = 1, external = False\<rparr>)"
  using resize_failure_leaves_buffer
          [of "\<lparr>base = Some [1, 2, 3, 4], size_bytes = 4 :: 32 word, head = 3, tail = 1,
                external = True\<rparr>"
              "\<lambda>n. Some (\<lambda>i. 0)" 8]
        resize_failure_leaves_buffer
          [of "\<lparr>base = Some [1, 2, 3, 4], size_bytes = 4 :: 32 word, head = 3, tail = 1,
                external = False\<rparr>"
              "\<lambda>n. None" 8]
  by simp

section \<open>The invariant of the reachable states\<close>




section \<open>Peek\<close>




section \<open>Bounded write\<close>

text \<open>
  C3 (as amended).  On a ring buffer of nonzero capacity \<open>circ_buf_write\<close> of a source
  of \<open>bytes\<close> bytes stores the first \<open>n = min bytes free_space\<close> bytes of the source at
  the physical offsets \<open>(off + i) mod capacity\<close>, where \<open>off\<close> is the offset of the
  write cursor, changes no other byte of the storage, adds \<open>n\<close> to the write cursor,
  leaves the read cursor alone and returns \<open>n\<close>; when the free space is smaller than
  \<open>bytes\<close>, \<open>n\<close> is the free space.  When the cursors are aligned, the resident bytes
  afterwards are the former ones, unchanged, followed by those \<open>n\<close> bytes.
\<close>

theorem write_spec:
  fixes c :: "('a::len) circ_buf_s"
  assumes wf: "well_formed c" and b: "base c = Some b" and sz: "size_bytes c \<noteq> 0"
    and x: "length x = unat bytes"
    and n: "n = min bytes (circ_buf_space (Some c))"
    and off: "off = unat (head c mod size_bytes c)"
  shows "\<exists>b'. circ_buf_write (Some c) (Some x) bytes
                 = Return (Inr n) (Some (c\<lparr>base := Some b', head := head c + n\<rparr>))
            \<and> length b' = length b
            \<and> (\<forall>i < unat n. b' ! ((off + i) mod unat (size_bytes c)) = x ! i)
            \<and> (\<forall>p < length b. (\<forall>i < unat n. p \<noteq> (off + i) mod unat (size_bytes c))
                    \<longrightarrow> b' ! p = b ! p)
            \<and> (circ_buf_space (Some c) < bytes \<longrightarrow> n = circ_buf_space (Some c))
            \<and> (cursors_aligned c
                 \<longrightarrow> resident (c\<lparr>base := Some b', head := head c + n\<rparr>)
                       = resident c @ take (unat n) x)"
proof -
  define szn where "szn = unat (size_bytes c)"
  define b' where "b' = ring_write b szn off x (unat n)"
  have bl: "szn \<le> length b" using wf b by (simp add: well_formed_def szn_def)
  have u: "head c - tail c \<le> size_bytes c" using wf by (simp add: well_formed_def)
  have n': "n = min bytes (size_bytes c - (head c - tail c))"
    using n by (simp add: circ_buf_space_def circ_buf_size_def circ_buf_used_def)
  have nx: "unat n \<le> length x" unfolding n x by (rule unat_min_le)
  have sp: "unat (size_bytes c - (head c - tail c)) = szn - unat (head c - tail c)"
    using u by (simp add: unat_sub szn_def)
  have "unat n \<le> unat (size_bytes c - (head c - tail c))" unfolding n' by (rule unat_min_le)
  then have fit: "unat (head c - tail c) - unat (0 :: 'a word) + unat n \<le> unat (size_bytes c)"
    using sp well_formed_unat [OF wf] by (simp add: szn_def)
  have ns: "unat n \<le> szn" using fit by (simp add: szn_def)
  have offl: "off < szn" using word_offset_facts(2) [OF sz] by (simp add: off szn_def)
  have 1: "circ_buf_write (Some c) (Some x) bytes
             = Return (Inr n) (Some (c\<lparr>base := Some b', head := head c + n\<rparr>))"
    using write_Some [OF b sz bl [unfolded szn_def] u n' nx]
    by (simp add: b'_def off szn_def)
  have 2: "length b' = length b"
    unfolding b'_def using offl bl ns nx by (rule length_ring_write)
  have 3: "\<forall>i < unat n. b' ! ((off + i) mod szn) = x ! i"
    unfolding b'_def using nth_ring_write_new [OF offl bl ns nx] by blast
  have 4: "\<forall>p < length b. (\<forall>i < unat n. p \<noteq> (off + i) mod szn) \<longrightarrow> b' ! p = b ! p"
    unfolding b'_def using nth_ring_write_old [OF offl bl ns nx] by blast
  have 5: "resident (c\<lparr>base := Some b', head := head c + n\<rparr>) = resident c @ take (unat n) x"
    if al: "cursors_aligned c"
    using resident_after_store [OF wf al b sz _ fit nx] by (simp add: b'_def off szn_def)
  have 6: "circ_buf_space (Some c) < bytes \<longrightarrow> n = circ_buf_space (Some c)"
    by (auto simp: n min_def)
  from 1 2 3 4 5 6 show ?thesis unfolding szn_def by blast
qed

text \<open>
  The witness is the buffer of four bytes whose write cursor has wrapped around
  \<open>2\<^sup>3\<^sup>2\<close>: its cursors are aligned because 4 divides \<open>2\<^sup>3\<^sup>2\<close>.
\<close>

theorem write_spec_witness:
  "well_formed (\<lparr>base = Some [65, 66, 67, 68], size_bytes = 4, head = 1, tail = 4294967294,
                 external = False\<rparr> :: 32 circ_buf_s)
   \<and> cursors_aligned (\<lparr>base = Some [65, 66, 67, 68], size_bytes = 4, head = 1,
                 tail = 4294967294, external = False\<rparr> :: 32 circ_buf_s)
   \<and> length [69, 70 :: byte] = unat (2 :: 32 word)
   \<and> circ_buf_space (Some (\<lparr>base = Some [65, 66, 67, 68], size_bytes = 4, head = 1,
                 tail = 4294967294, external = False\<rparr> :: 32 circ_buf_s)) = 1
   \<and> resident (\<lparr>base = Some [65, 66, 67, 68], size_bytes = 4, head = 1, tail = 4294967294,
                 external = False\<rparr> :: 32 circ_buf_s) = [67, 68, 65]
   \<and> (\<exists>b'. circ_buf_write (Some (\<lparr>base = Some [65, 66, 67, 68], size_bytes = 4, head = 1,
                 tail = 4294967294, external = False\<rparr> :: 32 circ_buf_s)) (Some [69, 70]) 2
             = Return (Inr 1)
                 (Some \<lparr>base = Some b', size_bytes = 4, head = 2, tail = 4294967294,
                        external = False\<rparr>)
           \<and> resident (\<lparr>base = Some b', size_bytes = 4, head = 2, tail = 4294967294,
                 external = False\<rparr> :: 32 circ_buf_s) = [67, 68, 65, 69])"
proof -
  let ?c = "\<lparr>base = Some [65, 66, 67, 68], size_bytes = 4, head = 1, tail = 4294967294,
             external = False\<rparr> :: 32 circ_buf_s"
  have wf: "well_formed ?c" by (simp add: well_formed_def)
  have al: "cursors_aligned ?c" by (simp add: cursors_aligned_def)
  have b: "base ?c = Some [65, 66, 67, 68]" by simp
  have sz: "size_bytes ?c \<noteq> 0" by simp
  have x: "length [69, 70 :: byte] = unat (2 :: 32 word)" by simp
  have sp: "circ_buf_space (Some ?c) = 1"
    by (simp add: circ_buf_space_def circ_buf_size_def circ_buf_used_def)
  have n: "(1 :: 32 word) = min 2 (circ_buf_space (Some ?c))" by (simp add: sp)
  have r: "resident ?c = [67, 68, 65]"
    by (simp add: resident_def ring_read_def upt_rec)
  show ?thesis using wf al x sp r write_spec [OF wf b sz x n refl] by (simp, blast)
qed

text \<open>
  C3 as stated fails twice.  On the buffer that \<open>circ_buf_init\<close> makes for capacity 0
  the write does not return the free space, 0, but ends in the division by zero.  And
  on a buffer of three bytes that has taken \<open>2\<^sup>3\<^sup>2 - 1\<close> bytes in rounds and then the
  two bytes 65 and 66, the write cursor has wrapped to 1 while its physical offset
  should be 2: the write of one more byte lands on the resident byte 66.
\<close>

theorem write_traps_or_clobbers:
  "circ_buf_init (\<lambda>n :: 32 word. None)
      (Some \<lparr>base = None, size_bytes = 7, head = 7, tail = 7, external = True\<rparr>) None 0
     = (Inr (), Some \<lparr>base = None, size_bytes = 0, head = 0, tail = 0, external = False\<rparr>)
   \<and> circ_buf_write (Some (\<lparr>base = None, size_bytes = 0, head = 0, tail = 0,
                      external = False\<rparr> :: 32 circ_buf_s)) (Some [65]) 1
       = Trap DivideByZero
   \<and> reachable (\<lparr>base = Some [65, 66, 0], size_bytes = 3, head = 1, tail = 4294967295,
                    external = False\<rparr> :: 32 circ_buf_s)
   \<and> resident (\<lparr>base = Some [65, 66, 0], size_bytes = 3, head = 1, tail = 4294967295,
                   external = False\<rparr> :: 32 circ_buf_s) = [65, 66]
   \<and> circ_buf_write (Some (\<lparr>base = Some [65, 66, 0], size_bytes = 3, head = 1,
                   tail = 4294967295, external = False\<rparr> :: 32 circ_buf_s)) (Some [69]) 1
       = Return (Inr 1)
           (Some \<lparr>base = Some [65, 69, 0], size_bytes = 3, head = 2, tail = 4294967295,
                  external = False\<rparr>)
   \<and> resident (\<lparr>base = Some [65, 69, 0], size_bytes = 3, head = 2, tail = 4294967295,
                   external = False\<rparr> :: 32 circ_buf_s) = [65, 69, 0]"
proof -
  have "circ_buf_init (\<lambda>n :: 32 word. None)
      (Some \<lparr>base = None, size_bytes = 7, head = 7, tail = 7, external = True\<rparr>) None 0
     = (Inr (), Some \<lparr>base = None, size_bytes = 0, head = 0, tail = 0, external = False\<rparr>)"
    by (simp add: circ_buf_init_def)
  moreover have "circ_buf_write (Some (\<lparr>base = None, size_bytes = 0, head = 0, tail = 0,
                      external = False\<rparr> :: 32 circ_buf_s)) (Some [65]) 1
       = Trap DivideByZero"
    by (simp add: circ_buf_write_def)
  moreover have "resident (\<lparr>base = Some [65, 66, 0], size_bytes = 3, head = 1,
                   tail = 4294967295, external = False\<rparr> :: 32 circ_buf_s) = [65, 66]"
    by (simp add: resident_def ring_read_def upt_rec)
  moreover have "circ_buf_write (Some (\<lparr>base = Some [65, 66, 0], size_bytes = 3, head = 1,
                   tail = 4294967295, external = False\<rparr> :: 32 circ_buf_s)) (Some [69]) 1
       = Return (Inr 1)
           (Some \<lparr>base = Some [65, 69, 0], size_bytes = 3, head = 2, tail = 4294967295,
                  external = False\<rparr>)"
    by (simp add: circ_buf_write_def circ_buf_space_def circ_buf_size_def circ_buf_used_def
        memcpy_def Let_def)
  moreover have "resident (\<lparr>base = Some [65, 69, 0], size_bytes = 3, head = 2,
                   tail = 4294967295, external = False\<rparr> :: 32 circ_buf_s) = [65, 69, 0]"
    by (simp add: resident_def ring_read_def upt_rec)
  ultimately show ?thesis using reachable_wrapped_two by simp
qed

section \<open>Evicting write\<close>

text \<open>
  C4 (as amended).  On a ring buffer of nonzero capacity \<open>circ_buf_overwrite\<close> of a
  source of \<open>bytes\<close> bytes first cuts the count to \<open>n = min bytes capacity\<close>, keeping
  the last \<open>n\<close> bytes of the source, then takes \<open>ev = n - free_space\<close> when \<open>n\<close>
  exceeds the free space and 0 otherwise, stores the \<open>n\<close> bytes at the physical offsets
  \<open>(off + i) mod capacity\<close> from the offset \<open>off\<close> of the write cursor on, adds \<open>n\<close> to
  the write cursor and \<open>ev\<close> to the read cursor, and returns \<open>ev\<close>, which is at most the
  occupancy.  When the cursors are aligned, the \<open>ev\<close> bytes given up are the oldest
  resident ones: the resident bytes afterwards are the former ones without their oldest
  \<open>ev\<close>, followed by the last \<open>n\<close> bytes of the source.
\<close>

theorem overwrite_spec:
  fixes c :: "('a::len) circ_buf_s"
  assumes wf: "well_formed c" and b: "base c = Some b" and sz: "size_bytes c \<noteq> 0"
    and x: "length x = unat bytes"
    and n: "n = min bytes (circ_buf_size (Some c))"
    and ev: "ev = (if n > circ_buf_space (Some c) then n - circ_buf_space (Some c) else 0)"
    and off: "off = unat (head c mod size_bytes c)"
  shows "\<exists>b'. circ_buf_overwrite (Some c) (Some x) bytes
                 = Return (Inr ev)
                     (Some (c\<lparr>base := Some b', head := head c + n, tail := tail c + ev\<rparr>))
            \<and> ev \<le> circ_buf_used (Some c)
            \<and> (\<forall>i < unat n. b' ! ((off + i) mod unat (size_bytes c))
                                = x ! (length x - unat n + i))
            \<and> (cursors_aligned c
                 \<longrightarrow> resident (c\<lparr>base := Some b', head := head c + n, tail := tail c + ev\<rparr>)
                       = drop (unat ev) (resident c) @ drop (length x - unat n) x)"
proof -
  define szn where "szn = unat (size_bytes c)"
  define u where "u = unat (head c - tail c)"
  define xs where "xs = drop (unat bytes - unat n) x"
  define b' where "b' = ring_write b szn off xs (unat n)"
  have bl: "szn \<le> length b" using wf b by (simp add: well_formed_def szn_def)
  have ule: "head c - tail c \<le> size_bytes c" using wf by (simp add: well_formed_def)
  have us: "u \<le> szn" using well_formed_unat [OF wf] by (simp add: u_def szn_def)
  have n': "n = min bytes (size_bytes c)" using n by (simp add: circ_buf_size_def)
  have nb: "unat n \<le> unat bytes" and ns: "unat n \<le> szn"
    unfolding n' szn_def by (rule unat_min_le)+
  have sp: "circ_buf_space (Some c) = size_bytes c - (head c - tail c)"
    by (simp add: circ_buf_space_def circ_buf_size_def circ_buf_used_def)
  have usp: "unat (size_bytes c - (head c - tail c)) = szn - u"
    using ule by (simp add: unat_sub szn_def u_def)
  have ev': "ev = evicted c bytes"
    unfolding ev evicted_def sp n' by (rule refl)
  have uev: "unat ev = (if szn - u < unat n then unat n - (szn - u) else 0)"
  proof (cases "size_bytes c - (head c - tail c) < n")
    case True
    then have "unat ev = unat n - (szn - u)"
      unfolding ev sp using usp by (simp add: unat_sub)
    moreover have "szn - u < unat n" using True usp by (simp add: word_less_nat_alt)
    ultimately show ?thesis by simp
  next
    case False
    then have "unat ev = 0" unfolding ev sp by simp
    moreover have "\<not> szn - u < unat n" using False usp by (simp add: word_less_nat_alt)
    ultimately show ?thesis by simp
  qed
  have evu: "unat ev \<le> u" using uev us ns by (simp split: if_splits)
  then have evle: "ev \<le> head c - tail c" by (simp add: word_le_nat_alt u_def)
  have fit: "unat (head c - tail c) - unat ev + unat n \<le> unat (size_bytes c)"
    using uev us ns by (simp add: u_def [symmetric] szn_def [symmetric] split: if_splits)
  have xl: "unat n \<le> length xs" using nb x by (simp add: xs_def)
  have offl: "off < szn" using word_offset_facts(2) [OF sz] by (simp add: off szn_def)
  have 1: "circ_buf_overwrite (Some c) (Some x) bytes
             = Return (Inr ev)
                 (Some (c\<lparr>base := Some b', head := head c + n, tail := tail c + ev\<rparr>))"
    using overwrite_Some [OF b sz bl [unfolded szn_def] n', of x] x
    by (simp add: b'_def xs_def szn_def ev' off)
  have 2: "ev \<le> circ_buf_used (Some c)" using evle by (simp add: circ_buf_used_def)
  have 3: "\<forall>i < unat n. b' ! ((off + i) mod szn) = x ! (length x - unat n + i)"
  proof (intro allI impI)
    fix i assume i: "i < unat n"
    have "b' ! ((off + i) mod szn) = xs ! i"
      unfolding b'_def using offl bl ns xl i by (rule nth_ring_write_new)
    also have "xs ! i = x ! (length x - unat n + i)"
      using i nb x by (simp add: xs_def)
    finally show "b' ! ((off + i) mod szn) = x ! (length x - unat n + i)" .
  qed
  have tk: "take (unat n) xs = drop (length x - unat n) x"
    using nb x by (simp add: xs_def)
  have 4: "resident (c\<lparr>base := Some b', head := head c + n, tail := tail c + ev\<rparr>)
                 = drop (unat ev) (resident c) @ drop (length x - unat n) x"
    if al: "cursors_aligned c"
    using resident_after_store [OF wf al b sz evle fit xl] tk
    by (simp add: b'_def szn_def off)
  from 1 2 3 4 show ?thesis unfolding szn_def by blast
qed

text \<open>
  The witness is the buffer of four bytes whose write cursor has wrapped around
  \<open>2\<^sup>3\<^sup>2\<close>; one resident byte is given up.
\<close>

theorem overwrite_spec_witness:
  "well_formed (\<lparr>base = Some [65, 66, 67, 68], size_bytes = 4, head = 1, tail = 4294967294,
                 external = False\<rparr> :: 32 circ_buf_s)
   \<and> cursors_aligned (\<lparr>base = Some [65, 66, 67, 68], size_bytes = 4, head = 1,
                 tail = 4294967294, external = False\<rparr> :: 32 circ_buf_s)
   \<and> length [69, 70 :: byte] = unat (2 :: 32 word)
   \<and> resident (\<lparr>base = Some [65, 66, 67, 68], size_bytes = 4, head = 1, tail = 4294967294,
                 external = False\<rparr> :: 32 circ_buf_s) = [67, 68, 65]
   \<and> (\<exists>b'. circ_buf_overwrite (Some (\<lparr>base = Some [65, 66, 67, 68], size_bytes = 4, head = 1,
                 tail = 4294967294, external = False\<rparr> :: 32 circ_buf_s)) (Some [69, 70]) 2
             = Return (Inr 1)
                 (Some \<lparr>base = Some b', size_bytes = 4, head = 3, tail = 4294967295,
                        external = False\<rparr>)
           \<and> resident (\<lparr>base = Some b', size_bytes = 4, head = 3, tail = 4294967295,
                 external = False\<rparr> :: 32 circ_buf_s) = [68, 65, 69, 70])"
proof -
  let ?c = "\<lparr>base = Some [65, 66, 67, 68], size_bytes = 4, head = 1, tail = 4294967294,
             external = False\<rparr> :: 32 circ_buf_s"
  have wf: "well_formed ?c" by (simp add: well_formed_def)
  have al: "cursors_aligned ?c" by (simp add: cursors_aligned_def)
  have b: "base ?c = Some [65, 66, 67, 68]" by simp
  have sz: "size_bytes ?c \<noteq> 0" by simp
  have x: "length [69, 70 :: byte] = unat (2 :: 32 word)" by simp
  have n: "(2 :: 32 word) = min 2 (circ_buf_size (Some ?c))" by (simp add: circ_buf_size_def)
  have ev: "(1 :: 32 word)
      = (if 2 > circ_buf_space (Some ?c) then 2 - circ_buf_space (Some ?c) else 0)"
    by (simp add: circ_buf_space_def circ_buf_size_def circ_buf_used_def)
  have r: "resident ?c = [67, 68, 65]"
    by (simp add: resident_def ring_read_def upt_rec)
  show ?thesis using wf al x r overwrite_spec [OF wf b sz x n ev refl] by (simp, blast)
qed

text \<open>
  C4 as stated fails twice.  On the buffer that \<open>circ_buf_init\<close> makes for capacity 0
  the call does not return 0 evicted bytes but ends in the division by zero.  And on the
  buffer of three bytes whose write cursor has wrapped to 1 while its physical offset
  should be 2, the call returns 0 for no byte evicted, yet its copy lands on the resident
  byte 66.
\<close>

theorem overwrite_traps_or_clobbers:
  "circ_buf_init (\<lambda>n :: 32 word. None)
      (Some \<lparr>base = None, size_bytes = 7, head = 7, tail = 7, external = True\<rparr>) None 0
     = (Inr (), Some \<lparr>base = None, size_bytes = 0, head = 0, tail = 0, external = False\<rparr>)
   \<and> circ_buf_overwrite (Some (\<lparr>base = None, size_bytes = 0, head = 0, tail = 0,
                      external = False\<rparr> :: 32 circ_buf_s)) (Some [65]) 1
       = Trap DivideByZero
   \<and> reachable (\<lparr>base = Some [65, 66, 0], size_bytes = 3, head = 1, tail = 4294967295,
                    external = False\<rparr> :: 32 circ_buf_s)
   \<and> resident (\<lparr>base = Some [65, 66, 0], size_bytes = 3, head = 1, tail = 4294967295,
                   external = False\<rparr> :: 32 circ_buf_s) = [65, 66]
   \<and> circ_buf_overwrite (Some (\<lparr>base = Some [65, 66, 0], size_bytes = 3, head = 1,
                   tail = 4294967295, external = False\<rparr> :: 32 circ_buf_s)) (Some [69]) 1
       = Return (Inr 0)
           (Some \<lparr>base = Some [65, 69, 0], size_bytes = 3, head = 2, tail = 4294967295,
                  external = False\<rparr>)
   \<and> resident (\<lparr>base = Some [65, 69, 0], size_bytes = 3, head = 2, tail = 4294967295,
                   external = False\<rparr> :: 32 circ_buf_s) = [65, 69, 0]"
proof -
  have "circ_buf_init (\<lambda>n :: 32 word. None)
      (Some \<lparr>base = None, size_bytes = 7, head = 7, tail = 7, external = True\<rparr>) None 0
     = (Inr (), Some \<lparr>base = None, size_bytes = 0, head = 0, tail = 0, external = False\<rparr>)"
    by (simp add: circ_buf_init_def)
  moreover have "circ_buf_overwrite (Some (\<lparr>base = None, size_bytes = 0, head = 0, tail = 0,
                      external = False\<rparr> :: 32 circ_buf_s)) (Some [65]) 1
       = Trap DivideByZero"
    by (simp add: circ_buf_overwrite_def)
  moreover have "resident (\<lparr>base = Some [65, 66, 0], size_bytes = 3, head = 1,
                   tail = 4294967295, external = False\<rparr> :: 32 circ_buf_s) = [65, 66]"
    by (simp add: resident_def ring_read_def upt_rec)
  moreover have "circ_buf_overwrite (Some (\<lparr>base = Some [65, 66, 0], size_bytes = 3, head = 1,
                   tail = 4294967295, external = False\<rparr> :: 32 circ_buf_s)) (Some [69]) 1
       = Return (Inr 0)
           (Some \<lparr>base = Some [65, 69, 0], size_bytes = 3, head = 2, tail = 4294967295,
                  external = False\<rparr>)"
    by (simp add: circ_buf_overwrite_def circ_buf_space_def circ_buf_size_def circ_buf_used_def
        memcpy_def Let_def)
  moreover have "resident (\<lparr>base = Some [65, 69, 0], size_bytes = 3, head = 2,
                   tail = 4294967295, external = False\<rparr> :: 32 circ_buf_s) = [65, 69, 0]"
    by (simp add: resident_def ring_read_def upt_rec)
  ultimately show ?thesis using reachable_wrapped_two by simp
qed

section \<open>Round trip\<close>

text \<open>
  C2 (as amended).  On an empty buffer of nonzero capacity, writing a source \<open>x\<close> that is
  no longer than the capacity returns the length of \<open>x\<close>, and reading at least that
  many bytes into a destination \<open>y\<close> that has room for them returns the length of
  \<open>x\<close> again and leaves \<open>x\<close> at the front of \<open>y\<close>.
\<close>

theorem write_read_round_trip:
  fixes c :: "('a::len) circ_buf_s"
  assumes b: "base c = Some b" "unat (size_bytes c) \<le> length b"
    and empty: "circ_buf_is_empty (Some c)"
    and sz: "size_bytes c \<noteq> 0"
    and fit: "length x \<le> unat (size_bytes c)"
    and n: "n = of_nat (length x)"
    and y: "length x \<le> length y" and m: "n \<le> m"
  shows "\<exists>c1 c2. circ_buf_write (Some c) (Some x) n = Return (Inr n) (Some c1)
            \<and> circ_buf_read (Some c1) (Some y) m
                 = Return (Inr n) (Some c2, Some (x @ drop (length x) y))
            \<and> unat n = length x
            \<and> circ_buf_is_empty (Some c2)"
proof -
  define szn where "szn = unat (size_bytes c)"
  define off where "off = unat (head c mod size_bytes c)"
  define b1 where "b1 = ring_write b szn off x (unat n)"
  define c1 where "c1 = c\<lparr>base := Some b1, head := head c + n\<rparr>"
  have ht: "head c = tail c"
    using empty by (simp add: circ_buf_is_empty_def circ_buf_used_def)
  have "length x < 2 ^ LENGTH('a)"
    using fit unsigned_less [of "size_bytes c"] by (rule le_less_trans)
  then have un: "unat n = length x" by (simp add: n unat_of_nat)
  have nle: "n \<le> size_bytes c" using fit un by (simp add: word_le_nat_alt)
  have u: "head c - tail c \<le> size_bytes c" by (simp add: ht)
  have n1: "n = min n (size_bytes c - (head c - tail c))" using nle by (simp add: ht min_def)
  have offl: "off < szn" using word_offset_facts(2) [OF sz] by (simp add: off_def szn_def)
  have bl: "szn \<le> length b" using b by (simp add: szn_def)
  have ns: "unat n \<le> szn" using fit un by (simp add: szn_def)
  have nx: "unat n \<le> length x" using un by simp
  have w: "circ_buf_write (Some c) (Some x) n = Return (Inr n) (Some c1)"
    using write_Some [OF b(1) sz b(2) u n1 nx]
    by (simp add: c1_def b1_def off_def szn_def)
  have l1: "length b1 = length b"
    unfolding b1_def using offl bl ns nx by (rule length_ring_write)
  have b1: "base c1 = Some b1" and sz1: "size_bytes c1 \<noteq> 0"
    and bl1: "unat (size_bytes c1) \<le> length b1"
    using sz b l1 by (simp_all add: c1_def)
  have used1: "head c1 - tail c1 = n" by (simp add: c1_def ht)
  have u1: "head c1 - tail c1 \<le> size_bytes c1" using nle by (simp add: used1) (simp add: c1_def)
  have n2: "n = min m (head c1 - tail c1)" using m by (simp add: used1 min_def)
  have ny: "unat n \<le> length y" using un y by simp
  have "ring_read b1 szn off (unat n) = take (unat n) x"
    unfolding b1_def using offl bl ns nx by (rule ring_read_written)
  then have rr: "ring_read b1 (unat (size_bytes c1)) (unat (tail c1 mod size_bytes c1)) (unat n) = x"
    using un by (simp add: c1_def ht [symmetric] off_def szn_def)
  have r: "circ_buf_read (Some c1) (Some y) m
             = Return (Inr n) (Some (c1\<lparr>tail := tail c1 + n\<rparr>), Some (x @ drop (length x) y))"
    using read_Some [OF b1 sz1 bl1 u1 n2 ny] unfolding rr by (simp add: un)
  have e: "circ_buf_is_empty (Some (c1\<lparr>tail := tail c1 + n\<rparr>))"
    by (simp add: circ_buf_is_empty_def circ_buf_used_def c1_def ht)
  from w r un e show ?thesis by blast
qed

theorem write_read_round_trip_witness:
  "circ_buf_is_empty (Some (\<lparr>base = Some [0, 0, 0, 0], size_bytes = 4, head = 7, tail = 7,
                 external = False\<rparr> :: 32 circ_buf_s))
   \<and> length [65, 66, 67 :: byte] \<le> unat (4 :: 32 word)
   \<and> (\<exists>c1 c2. circ_buf_write (Some (\<lparr>base = Some [0, 0, 0, 0], size_bytes = 4, head = 7, tail = 7,
                 external = False\<rparr> :: 32 circ_buf_s)) (Some [65, 66, 67]) 3
               = Return (Inr 3) (Some c1)
            \<and> circ_buf_read (Some c1) (Some [1, 2, 3, 4, 5]) 5
                 = Return (Inr 3) (Some c2, Some [65, 66, 67, 4, 5]))"
proof -
  let ?c = "\<lparr>base = Some [0, 0, 0, 0], size_bytes = 4, head = 7, tail = 7,
             external = False\<rparr> :: 32 circ_buf_s"
  have b: "base ?c = Some [0, 0, 0, 0]" "unat (size_bytes ?c) \<le> length [0, 0, 0, 0 :: byte]"
    by simp_all
  have e: "circ_buf_is_empty (Some ?c)" by (simp add: circ_buf_is_empty_def circ_buf_used_def)
  have sz: "size_bytes ?c \<noteq> 0" by simp
  have fit: "length [65, 66, 67 :: byte] \<le> unat (size_bytes ?c)" by simp
  have n: "(3 :: 32 word) = of_nat (length [65, 66, 67 :: byte])" by simp
  have y: "length [65, 66, 67 :: byte] \<le> length [1, 2, 3, 4, 5 :: byte]" by simp
  have m: "(3 :: 32 word) \<le> 5" by simp
  show ?thesis using e write_read_round_trip [OF b e sz fit n y m] by (simp, blast)
qed

text \<open>
  C2 as stated fails for a source longer than the capacity: on an empty buffer of two
  bytes the write of three bytes returns 2, not 3.
\<close>

theorem write_longer_than_capacity:
  "circ_buf_is_empty (Some (\<lparr>base = Some [0, 0], size_bytes = 2, head = 0, tail = 0,
                 external = False\<rparr> :: 32 circ_buf_s))
   \<and> circ_buf_write (Some (\<lparr>base = Some [0, 0], size_bytes = 2, head = 0, tail = 0,
                 external = False\<rparr> :: 32 circ_buf_s)) (Some [65, 66, 67]) 3
       = Return (Inr 2)
           (Some \<lparr>base = Some [65, 66], size_bytes = 2, head = 2, tail = 0, external = False\<rparr>)
   \<and> (2 :: 32 word) \<noteq> of_nat (length [65, 66, 67 :: byte])"
  by (simp add: circ_buf_is_empty_def circ_buf_used_def circ_buf_write_def circ_buf_space_def
      circ_buf_size_def memcpy_def Let_def)

section \<open>Resize\<close>





section \<open>The size of a buffer-chain queue\<close>

text \<open>
  C9.  \<open>iob_get_queue_size\<close> returns the sum of the lengths of all segments of all
  chains of all entries of the queue: as a \<^verbatim>\<open>size_t\<close> the result is that sum modulo the
  width of \<^verbatim>\<open>size_t\<close>, hence the sum itself whenever the sum is representable.  For a
  queue whose head is null it returns 0.  The function takes the queue and returns a
  number only: it changes nothing.
\<close>

theorem iob_get_queue_size_sum:
  fixes queue :: "('l::len) word iob_queue_s"
  shows "unat (iob_get_queue_size queue :: ('a::len) word) = total_length queue mod 2 ^ LENGTH('a)
       \<and> (total_length queue < 2 ^ LENGTH('a)
            \<longrightarrow> unat (iob_get_queue_size queue :: 'a word) = total_length queue)
       \<and> (qh_head queue = None \<longrightarrow> (iob_get_queue_size queue :: 'a word) = 0)"
  by (simp add: iob_get_queue_size_def iob_entries_size_sum total_length_def unat_of_nat)

theorem iob_get_queue_size_sum_witness:
  "total_length (\<lparr>qh_head = Some (Qentry (Some (Iob 100 (Some (Iob 20 None))))
                     (Some (Qentry None (Some (Qentry (Some (Iob 3 None)) None)))))\<rparr>
                 :: 16 word iob_queue_s) = 123
   \<and> (123 :: nat) < 2 ^ LENGTH(32)
   \<and> (iob_get_queue_size (\<lparr>qh_head = Some (Qentry (Some (Iob 100 (Some (Iob 20 None))))
                     (Some (Qentry None (Some (Qentry (Some (Iob 3 None)) None)))))\<rparr>
                 :: 16 word iob_queue_s) :: 32 word) = 123
   \<and> qh_head (\<lparr>qh_head = None\<rparr> :: 16 word iob_queue_s) = None
   \<and> (iob_get_queue_size (\<lparr>qh_head = None\<rparr> :: 16 word iob_queue_s) :: 32 word) = 0"
proof -
  let ?q = "\<lparr>qh_head = Some (Qentry (Some (Iob 100 (Some (Iob 20 None))))
                     (Some (Qentry None (Some (Qentry (Some (Iob 3 None)) None)))))\<rparr>
             :: 16 word iob_queue_s"
  have t: "total_length ?q = 123" by (simp add: total_length_def)
  have "unat (iob_get_queue_size ?q :: 32 word) = 123"
    using iob_get_queue_size_sum [of ?q, where 'a = 32] t by simp
  then have "(iob_get_queue_size ?q :: 32 word) = 123"
    by (simp add: word_unat_eq_iff)
  then show ?thesis
    using t iob_get_queue_size_sum [of "\<lparr>qh_head = None\<rparr> :: 16 word iob_queue_s", where 'a = 32]
    by simp
qed

end
